theory Spec2Isabelle
  imports Complex_Main "HOL-Library.Multiset" "HOL-Library.Product_Lexorder"
begin

section \<open>Python building blocks used by the notebooks\<close>

text \<open>
  Exceptions are values: a function that can raise returns \<open>py_error + 'a\<close>, with
  \<open>Inl\<close> carrying the exception. \<open>ValueError\<close> is what \<^verbatim>\<open>range\<close> raises on a zero step and
  what \<^verbatim>\<open>np.dot\<close> raises on vectors of different length; \<open>IndexError\<close> is what indexing a list
  out of range raises; \<open>APIError\<close> stands for any exception of the hosted completion service.
\<close>

datatype py_error = ValueError | IndexError | APIError

text \<open>Sequencing of calls that may raise: the first exception ends the computation.\<close>

fun traverse :: "('a \<Rightarrow> py_error + 'b) \<Rightarrow> 'a list \<Rightarrow> py_error + 'b list" where
  "traverse f [] = Inr []"
| "traverse f (x # xs) =
     (case f x of
        Inl e \<Rightarrow> Inl e
      | Inr y \<Rightarrow> (case traverse f xs of Inl e \<Rightarrow> Inl e | Inr ys \<Rightarrow> Inr (y # ys)))"

text \<open>
  \<^verbatim>\<open>range(start, stop, step)\<close>: a zero step raises \<open>ValueError\<close>, a positive step counts up
  while the value is below \<open>stop\<close>, a negative step counts down while it is above \<open>stop\<close>.
\<close>

function range_up :: "int \<Rightarrow> int \<Rightarrow> int \<Rightarrow> int list" where
  "range_up i stop step =
     (if 0 < step \<and> i < stop then i # range_up (i + step) stop step else [])"
  by pat_completeness auto
termination
  by (relation "measure (\<lambda>(i, stop, step). nat (stop - i))") auto

function range_down :: "int \<Rightarrow> int \<Rightarrow> int \<Rightarrow> int list" where
  "range_down i stop step =
     (if step < 0 \<and> stop < i then i # range_down (i + step) stop step else [])"
  by pat_completeness auto
termination
  by (relation "measure (\<lambda>(i, stop, step). nat (i - stop))") auto

declare range_up.simps [simp del]
declare range_down.simps [simp del]

definition py_range :: "int \<Rightarrow> int \<Rightarrow> int \<Rightarrow> py_error + int list" where
  "py_range start stop step =
     (if step = 0 then Inl ValueError
      else if 0 < step then Inr (range_up start stop step)
      else Inr (range_down start stop step))"

text \<open>
  Slicing \<^verbatim>\<open>xs[lo:hi]\<close>: a negative bound counts from the end, and every bound is clipped
  to \<open>0 .. len(xs)\<close>; slicing never raises.
\<close>

definition slice_bound :: "nat \<Rightarrow> int \<Rightarrow> nat" where
  "slice_bound len j =
     (if j < 0 then nat (max 0 (j + int len)) else nat (min j (int len)))"

definition py_slice :: "'a list \<Rightarrow> int \<Rightarrow> int \<Rightarrow> 'a list" where
  "py_slice xs lo hi =
     (let a = slice_bound (length xs) lo; b = slice_bound (length xs) hi
      in take (b - a) (drop a xs))"

text \<open>Indexing \<^verbatim>\<open>xs[i]\<close>: a negative index counts from the end, out of range raises.\<close>

definition py_index :: "'a list \<Rightarrow> int \<Rightarrow> py_error + 'a" where
  "py_index xs i =
     (if 0 \<le> i \<and> i < int (length xs) then Inr (xs ! nat i)
      else if i < 0 \<and> - int (length xs) \<le> i then Inr (xs ! nat (int (length xs) + i))
      else Inl IndexError)"

section \<open>Chunker\<close>

text \<open>
  \<^verbatim>\<open>
  def chunk_text(text, n, overlap):
      chunks = []
      for i in range(0, len(text), n - overlap):
          chunks.append(text[i:i + n])
      return chunks
  \<close>
  The same function is defined in both notebooks.
\<close>

definition chunk_text :: "string \<Rightarrow> int \<Rightarrow> int \<Rightarrow> py_error + string list" where
  "chunk_text text n overlap =
     (case py_range 0 (int (length text)) (n - overlap) of
        Inl e \<Rightarrow> Inl e
      | Inr offsets \<Rightarrow> Inr (map (\<lambda>i. py_slice text i (i + n)) offsets))"

text \<open>
  \<^verbatim>\<open>
  def generate_chunk_header(chunk, model="gpt-4o-mini"):
      response = client.chat.completions.create(model=model, temperature=0, messages=[...])
      return response.choices[0].message.content.strip()
  \<close>
  The hosted completion service is not part of the repository. It is a parameter
  \<open>completion\<close>: the text of the first choice for a given chunk, or the exception the call
  raises. \<^verbatim>\<open>str.strip()\<close> removes leading and trailing whitespace; characters stand for
  code points below 256, of which Python counts the following as whitespace.
\<close>

definition py_isspace :: "char \<Rightarrow> bool" where
  "py_isspace c = ((of_char c :: nat) \<in> {9, 10, 11, 12, 13, 28, 29, 30, 31, 32, 133, 160})"

definition py_strip :: "string \<Rightarrow> string" where
  "py_strip s = rev (dropWhile py_isspace (rev (dropWhile py_isspace s)))"

definition generate_chunk_header :: "(string \<Rightarrow> py_error + string) \<Rightarrow> string \<Rightarrow> py_error + string" where
  "generate_chunk_header completion chunk =
     (case completion chunk of Inl e \<Rightarrow> Inl e | Inr content \<Rightarrow> Inr (py_strip content))"

text \<open>
  \<^verbatim>\<open>
  def chunk_text_with_headers(text, n, overlap):
      chunks = []
      for i in range(0, len(text), n - overlap):
          chunk = text[i:i + n]
          header = generate_chunk_header(chunk)
          chunks.append({"header": header, "text": chunk})
      return chunks
  \<close>
  The dictionary with the keys \<^verbatim>\<open>header\<close> and \<^verbatim>\<open>text\<close> is a record. There is no
  \<^verbatim>\<open>try\<close> around the call: an exception leaves the loop and the function.
\<close>

record headed_chunk =
  header :: string
  text' :: string

definition chunk_text_with_headers ::
  "(string \<Rightarrow> py_error + string) \<Rightarrow> string \<Rightarrow> int \<Rightarrow> int \<Rightarrow> py_error + headed_chunk list" where
  "chunk_text_with_headers completion text n overlap =
     (case py_range 0 (int (length text)) (n - overlap) of
        Inl e \<Rightarrow> Inl e
      | Inr offsets \<Rightarrow>
          traverse (\<lambda>i. let chunk = py_slice text i (i + n)
                        in case generate_chunk_header completion chunk of
                             Inl e \<Rightarrow> Inl e
                           | Inr h \<Rightarrow> Inr \<lparr>header = h, text' = chunk\<rparr>) offsets)"

section \<open>Similarity engine\<close>

subsection \<open>Float64 arithmetic\<close>

text \<open>
  A float64 value is a real number, an infinity or not-a-number; the two zeros are not
  told apart (they compare equal, and no divisor here is a negative zero). Every
  operation of numpy on float64 returns the exact result rounded to the nearest float64,
  ties to the even significand: 53 significant bits, the exponent of the last bit not
  below \<open>-1074\<close> (gradual underflow), and an infinity once the rounded magnitude reaches
  \<open>2 ^ 1024\<close> (overflow). Division by zero warns and returns \<^verbatim>\<open>nan\<close> or an infinity; it
  does not raise.
\<close>

datatype npfloat = Fin real | PInf | NInf | NaN

definition round_even :: "real \<Rightarrow> int" where
  "round_even y =
     (let f = \<lfloor>y\<rfloor>
      in if y - of_int f < 1 / 2 then f
         else if 1 / 2 < y - of_int f then f + 1
         else if even f then f else f + 1)"

definition round64 :: "real \<Rightarrow> npfloat" where
  "round64 x =
     (if x = 0 then Fin 0
      else
        let e = max \<lfloor>log 2 \<bar>x\<bar>\<rfloor> (- 1022);
            q = 2 powr of_int (e - 52);
            m = round_even (\<bar>x\<bar> / q)
        in if 2 ^ 1024 \<le> of_int m * q then (if 0 < x then PInf else NInf)
           else Fin (sgn x * (of_int m * q)))"

fun np_neg :: "npfloat \<Rightarrow> npfloat" where
  "np_neg (Fin x) = Fin (- x)"
| "np_neg PInf = NInf"
| "np_neg NInf = PInf"
| "np_neg NaN = NaN"

fun np_add :: "npfloat \<Rightarrow> npfloat \<Rightarrow> npfloat" where
  "np_add NaN _ = NaN"
| "np_add _ NaN = NaN"
| "np_add (Fin x) (Fin y) = round64 (x + y)"
| "np_add PInf NInf = NaN"
| "np_add NInf PInf = NaN"
| "np_add PInf _ = PInf"
| "np_add _ PInf = PInf"
| "np_add NInf _ = NInf"
| "np_add _ NInf = NInf"

fun np_mul :: "npfloat \<Rightarrow> npfloat \<Rightarrow> npfloat" where
  "np_mul NaN _ = NaN"
| "np_mul _ NaN = NaN"
| "np_mul (Fin x) (Fin y) = round64 (x * y)"
| "np_mul (Fin x) PInf = (if x = 0 then NaN else if 0 < x then PInf else NInf)"
| "np_mul (Fin x) NInf = (if x = 0 then NaN else if 0 < x then NInf else PInf)"
| "np_mul PInf (Fin y) = (if y = 0 then NaN else if 0 < y then PInf else NInf)"
| "np_mul NInf (Fin y) = (if y = 0 then NaN else if 0 < y then NInf else PInf)"
| "np_mul PInf PInf = PInf"
| "np_mul PInf NInf = NInf"
| "np_mul NInf PInf = NInf"
| "np_mul NInf NInf = PInf"

fun np_div :: "npfloat \<Rightarrow> npfloat \<Rightarrow> npfloat" where
  "np_div NaN _ = NaN"
| "np_div _ NaN = NaN"
| "np_div (Fin x) (Fin y) =
     (if y \<noteq> 0 then round64 (x / y)
      else if x = 0 then NaN
      else if 0 < x then PInf else NInf)"
| "np_div (Fin x) PInf = Fin 0"
| "np_div (Fin x) NInf = Fin 0"
| "np_div PInf (Fin y) = (if 0 \<le> y then PInf else NInf)"
| "np_div NInf (Fin y) = (if 0 \<le> y then NInf else PInf)"
| "np_div PInf PInf = NaN"
| "np_div PInf NInf = NaN"
| "np_div NInf PInf = NaN"
| "np_div NInf NInf = NaN"

fun np_sqrt :: "npfloat \<Rightarrow> npfloat" where
  "np_sqrt (Fin x) = (if 0 \<le> x then round64 (sqrt x) else NaN)"
| "np_sqrt PInf = PInf"
| "np_sqrt NInf = NaN"
| "np_sqrt NaN = NaN"

text \<open>Comparison \<^verbatim>\<open><\<close>: every comparison with \<^verbatim>\<open>nan\<close> is false.\<close>

fun np_lt :: "npfloat \<Rightarrow> npfloat \<Rightarrow> bool" where
  "np_lt (Fin x) (Fin y) = (x < y)"
| "np_lt NaN _ = False"
| "np_lt _ NaN = False"
| "np_lt _ NInf = False"
| "np_lt NInf _ = True"
| "np_lt PInf _ = False"
| "np_lt _ PInf = True"

text \<open>
  The order in which numpy sorts float64 values: ascending, every \<^verbatim>\<open>nan\<close> behind all
  numbers and infinities. \<open>np_rank\<close> maps a value to its place in that order.
\<close>

fun np_rank :: "npfloat \<Rightarrow> int \<times> real" where
  "np_rank NInf = (- 1, 0)"
| "np_rank (Fin x) = (0, x)"
| "np_rank PInf = (1, 0)"
| "np_rank NaN = (2, 0)"

subsection \<open>Vectors\<close>

text \<open>
  A vector is given by the list of the real numbers its components are written as; the
  float64 array holds their roundings, as the float literal \<^verbatim>\<open>0.1\<close> holds the float64
  nearest to one tenth. \<^verbatim>\<open>np.dot\<close> of two one-dimensional arrays adds the rounded products
  to an accumulator that starts at zero, here from left to right (numpy leaves the order
  to its BLAS library); it raises \<open>ValueError\<close> when the lengths differ, which the caller
  below checks. \<^verbatim>\<open>np.linalg.norm\<close> of a one-dimensional real array is
  \<^verbatim>\<open>sqrt(x.dot(x))\<close>.
\<close>

definition np_array :: "real list \<Rightarrow> npfloat list" where
  "np_array v = map round64 v"

definition np_dot :: "npfloat list \<Rightarrow> npfloat list \<Rightarrow> npfloat" where
  "np_dot a b = foldl (\<lambda>acc (x, y). np_add acc (np_mul x y)) (Fin 0) (zip a b)"

definition linalg_norm :: "npfloat list \<Rightarrow> npfloat" where
  "linalg_norm a = np_sqrt (np_dot a a)"

text \<open>
  \<^verbatim>\<open>
  def cosine_similarity(vec1, vec2):
      return np.dot(vec1, vec2) / (np.linalg.norm(vec1) * np.linalg.norm(vec2))
  \<close>
  The same in every notebook.
\<close>

definition cosine_similarity :: "real list \<Rightarrow> real list \<Rightarrow> py_error + npfloat" where
  "cosine_similarity vec1 vec2 =
     (if length vec1 \<noteq> length vec2 then Inl ValueError
      else Inr (np_div (np_dot (np_array vec1) (np_array vec2))
                  (np_mul (linalg_norm (np_array vec1)) (linalg_norm (np_array vec2)))))"

subsection \<open>Sorting\<close>

text \<open>
  \<^verbatim>\<open>list.sort(key=..., reverse=True)\<close> sorts with \<^verbatim>\<open><\<close> on the keys only. On keys that are
  all comparable (no \<^verbatim>\<open>nan\<close>) it is a stable sort into descending order, and that
  determines the result: an element moves behind those whose key is strictly greater and
  stays in front of those with an equal key that followed it (\<open>insort_by\<close>, where
  \<open>behind x y\<close> says that \<open>x\<close> belongs behind \<open>y\<close>).

  On keys with a \<^verbatim>\<open>nan\<close> the comparison is no order and the result is whatever the
  algorithm of the interpreter does. CPython 3.11 reverses the list, finds the run the
  list starts with (non-descending, or strictly descending and then reversed in place),
  puts the remaining elements into the run one after the other by binary insertion, and
  reverses the result (\<open>run_sort\<close>). That is its whole algorithm for lists of fewer than
  64 elements. Longer lists are cut into several runs that are merged: on comparable keys
  the result is the same stable sort, and on keys with a \<^verbatim>\<open>nan\<close> it is a permutation of
  the list that depends on the merge strategy; of that permutation nothing more is said
  here (\<open>merged_sort\<close>).
\<close>

fun insort_by :: "('a \<Rightarrow> 'a \<Rightarrow> bool) \<Rightarrow> 'a \<Rightarrow> 'a list \<Rightarrow> 'a list" where
  "insort_by behind x [] = [x]"
| "insort_by behind x (y # ys) =
     (if behind x y then y # insort_by behind x ys else x # y # ys)"

fun run_ascending :: "('a \<Rightarrow> 'a \<Rightarrow> bool) \<Rightarrow> 'a \<Rightarrow> 'a list \<Rightarrow> nat" where
  "run_ascending lt prev [] = 0"
| "run_ascending lt prev (x # xs) = (if lt x prev then 0 else Suc (run_ascending lt x xs))"

fun run_descending :: "('a \<Rightarrow> 'a \<Rightarrow> bool) \<Rightarrow> 'a \<Rightarrow> 'a list \<Rightarrow> nat" where
  "run_descending lt prev [] = 0"
| "run_descending lt prev (x # xs) = (if lt x prev then Suc (run_descending lt x xs) else 0)"

fun count_run :: "('a \<Rightarrow> 'a \<Rightarrow> bool) \<Rightarrow> 'a list \<Rightarrow> nat \<times> bool" where
  "count_run lt [] = (0, False)"
| "count_run lt [x] = (1, False)"
| "count_run lt (x # y # zs) =
     (if lt y x then (2 + run_descending lt y zs, True)
      else (2 + run_ascending lt y zs, False))"

function bisect :: "('a \<Rightarrow> 'a \<Rightarrow> bool) \<Rightarrow> 'a \<Rightarrow> 'a list \<Rightarrow> nat \<Rightarrow> nat \<Rightarrow> nat" where
  "bisect lt pivot xs l r =
     (if l < r
      then (let p = l + (r - l) div 2
            in if lt pivot (xs ! p) then bisect lt pivot xs l p
               else bisect lt pivot xs (Suc p) r)
      else l)"
  by pat_completeness auto
termination
  by (relation "measure (\<lambda>(lt, pivot, xs, l, r). r - l)") auto

declare bisect.simps [simp del]

definition binarysort :: "('a \<Rightarrow> 'a \<Rightarrow> bool) \<Rightarrow> 'a list \<Rightarrow> 'a list \<Rightarrow> 'a list" where
  "binarysort lt run rest =
     foldl (\<lambda>sorted pivot.
              let l = bisect lt pivot sorted 0 (length sorted)
              in take l sorted @ pivot # drop l sorted) run rest"

definition run_sort :: "('a \<Rightarrow> 'a \<Rightarrow> bool) \<Rightarrow> 'a list \<Rightarrow> 'a list" where
  "run_sort lt xs =
     (case count_run lt xs of
        (n, descending) \<Rightarrow>
          binarysort lt (if descending then rev (take n xs) else take n xs) (drop n xs))"

definition merged_sort :: "('a \<Rightarrow> npfloat) \<Rightarrow> 'a list \<Rightarrow> 'a list" where
  "merged_sort = (SOME sort. \<forall>key xs. mset (sort key xs) = mset xs)"

definition sort_reverse :: "('a \<Rightarrow> npfloat) \<Rightarrow> 'a list \<Rightarrow> 'a list" where
  "sort_reverse key xs =
     (if \<forall>x \<in> set xs. key x \<noteq> NaN
      then foldr (insort_by (\<lambda>x y. np_lt (key x) (key y))) xs []
      else if length xs < 64
      then rev (run_sort (\<lambda>x y. np_lt (key x) (key y)) (rev xs))
      else merged_sort key xs)"



section \<open>Retrievers\<close>

text \<open>
  The embedding service is not part of the repository: every retriever takes the
  embedding of the query, which the source obtains from \<^verbatim>\<open>create_embeddings(query)\<close>, as
  its first argument, and the embeddings of the chunks as vectors.
  \<^verbatim>\<open>
  def context_enriched_search(query, text_chunks, embeddings, k=1, context_size=1):
      query_embedding = create_embeddings(query).data[0].embedding
      similarity_scores = []
      for i, chunk_embedding in enumerate(embeddings):
          similarity_score = cosine_similarity(np.array(query_embedding),
                                               np.array(chunk_embedding.embedding))
          similarity_scores.append((i, similarity_score))
      similarity_scores.sort(key=lambda x: x[1], reverse=True)
      top_index = similarity_scores[0][0]
      start = max(0, top_index - context_size)
      end = min(len(text_chunks), top_index + context_size + 1)
      return [text_chunks[i] for i in range(start, end)]
  \<close>
\<close>

definition similarity_scores :: "real list \<Rightarrow> real list list \<Rightarrow> py_error + (nat \<times> npfloat) list" where
  "similarity_scores query_embedding embeddings =
     traverse (\<lambda>(i, chunk_embedding).
                 case cosine_similarity query_embedding chunk_embedding of
                   Inl e \<Rightarrow> Inl e
                 | Inr similarity_score \<Rightarrow> Inr (i, similarity_score))
       (enumerate 0 embeddings)"

definition context_enriched_ranking :: "real list \<Rightarrow> real list list \<Rightarrow> py_error + (nat \<times> npfloat) list" where
  "context_enriched_ranking query_embedding embeddings =
     (case similarity_scores query_embedding embeddings of
        Inl e \<Rightarrow> Inl e
      | Inr scores \<Rightarrow> Inr (sort_reverse snd scores))"

definition context_enriched_search ::
  "real list \<Rightarrow> 'a list \<Rightarrow> real list list \<Rightarrow> int \<Rightarrow> int \<Rightarrow> py_error + 'a list" where
  "context_enriched_search query_embedding text_chunks embeddings k context_size =
     (case context_enriched_ranking query_embedding embeddings of
        Inl e \<Rightarrow> Inl e
      | Inr [] \<Rightarrow> Inl IndexError
      | Inr (first # _) \<Rightarrow>
          (let top_index = int (fst first);
               start = max 0 (top_index - context_size);
               end = min (int (length text_chunks)) (top_index + context_size + 1)
           in traverse (py_index text_chunks) (range_up start end 1)))"

text \<open>
  \<^verbatim>\<open>
  def retrieve_relevant_chunks(query, text_chunks, chunk_embeddings, k=5):
      query_embedding = create_embeddings([query])[0]
      similarities = [cosine_similarity(query_embedding, emb) for emb in chunk_embeddings]
      top_indices = np.argsort(similarities)[-k:][::-1]
      return [text_chunks[i] for i in top_indices]
  \<close>
  The slice \<^verbatim>\<open>[-k:]\<close> has no upper bound, which is the length.
\<close>

definition top_indices ::
  "(npfloat list \<Rightarrow> nat list) \<Rightarrow> real list \<Rightarrow> real list list \<Rightarrow> int \<Rightarrow> py_error + nat list" where
  "top_indices np_argsort query_embedding chunk_embeddings k =
     (case traverse (cosine_similarity query_embedding) chunk_embeddings of
        Inl e \<Rightarrow> Inl e
      | Inr similarities \<Rightarrow>
          Inr (rev (py_slice (np_argsort similarities) (- k)
                      (int (length (np_argsort similarities))))))"

definition retrieve_relevant_chunks ::
  "(npfloat list \<Rightarrow> nat list) \<Rightarrow> real list \<Rightarrow> 'a list \<Rightarrow> real list list \<Rightarrow> int \<Rightarrow> py_error + 'a list" where
  "retrieve_relevant_chunks np_argsort query_embedding text_chunks chunk_embeddings k =
     (case top_indices np_argsort query_embedding chunk_embeddings k of
        Inl e \<Rightarrow> Inl e
      | Inr idx \<Rightarrow> traverse (\<lambda>i. py_index text_chunks (int i)) idx)"

text \<open>
  \<^verbatim>\<open>
  def semantic_search(query, chunks, k=5):
      query_embedding = create_embeddings(query)
      similarities = []
      for chunk in chunks:
          sim_text = cosine_similarity(np.array(query_embedding), np.array(chunk["embedding"]))
          sim_header = cosine_similarity(np.array(query_embedding),
                                         np.array(chunk["header_embedding"]))
          avg_similarity = (sim_text + sim_header) / 2
          similarities.append((chunk, avg_similarity))
      similarities.sort(key=lambda x: x[1], reverse=True)
      return [x[0] for x in similarities[:k]]
  \<close>
  A chunk here is the dictionary built by the embedding cell: header, text and the two
  embeddings.
\<close>

record embedded_chunk = headed_chunk +
  embedding :: "real list"
  header_embedding :: "real list"

definition avg_similarity :: "real list \<Rightarrow> embedded_chunk \<Rightarrow> py_error + npfloat" where
  "avg_similarity query_embedding chunk =
     (case cosine_similarity query_embedding (embedding chunk) of
        Inl e \<Rightarrow> Inl e
      | Inr sim_text \<Rightarrow>
          (case cosine_similarity query_embedding (header_embedding chunk) of
             Inl e \<Rightarrow> Inl e
           | Inr sim_header \<Rightarrow> Inr (np_div (np_add sim_text sim_header) (Fin 2))))"

definition similarities :: "real list \<Rightarrow> embedded_chunk list \<Rightarrow> py_error + (embedded_chunk \<times> npfloat) list" where
  "similarities query_embedding chunks =
     traverse (\<lambda>chunk. case avg_similarity query_embedding chunk of
                          Inl e \<Rightarrow> Inl e
                        | Inr s \<Rightarrow> Inr (chunk, s)) chunks"



section \<open>Properties of the chunker\<close>

lemma range_down_from_zero: "0 \<le> stop \<Longrightarrow> range_down 0 stop step = []"
  by (subst range_down.simps) simp

lemma length_range_up_cover:
  "0 < step \<Longrightarrow> i \<le> j \<Longrightarrow> j < stop \<Longrightarrow>
   nat ((j - i) div step) < length (range_up i stop step)"
proof (induction i stop step rule: range_up.induct)
  case (1 i stop step)
  show ?case
  proof (cases "j < i + step")
    case True
    with 1 have "(j - i) div step = 0"
      by (simp add: div_pos_pos_trivial)
    moreover from 1 have "range_up i stop step = i # range_up (i + step) stop step"
      by (subst range_up.simps) simp
    ultimately show ?thesis by simp
  next
    case False
    with 1 have ih: "nat ((j - (i + step)) div step) < length (range_up (i + step) stop step)"
      by simp
    from 1 have unf: "range_up i stop step = i # range_up (i + step) stop step"
      by (subst range_up.simps) simp
    from False 1 have "(j - i) div step = (j - (i + step)) div step + 1"
      by (metis add_diff_cancel_right' diff_diff_eq2 div_add_self2 less_irrefl
          add.commute diff_add_eq)
    moreover from False 1 have "0 \<le> (j - (i + step)) div step"
      by (simp add: pos_imp_zdiv_nonneg_iff)
    ultimately have "nat ((j - i) div step) = Suc (nat ((j - (i + step)) div step))"
      by simp
    with ih unf show ?thesis by simp
  qed
qed

lemma nth_range_up:
  "k < length (range_up i stop step) \<Longrightarrow> range_up i stop step ! k = i + int k * step"
proof (induction i stop step arbitrary: k rule: range_up.induct)
  case (1 i stop step)
  show ?case
  proof (cases "0 < step \<and> i < stop")
    case True
    then have unf: "range_up i stop step = i # range_up (i + step) stop step"
      by (subst range_up.simps) simp
    show ?thesis
    proof (cases k)
      case 0
      with unf show ?thesis by simp
    next
      case (Suc m)
      with 1 unf True have "range_up (i + step) stop step ! m = i + step + int m * step"
        by simp
      with unf Suc show ?thesis by (simp add: algebra_simps)
    qed
  next
    case False
    then have "range_up i stop step = []"
      by (subst range_up.simps) simp
    with 1 show ?thesis by simp
  qed
qed

lemma slice_bound_nonneg: "0 \<le> j \<Longrightarrow> slice_bound len j = min (nat j) len"
  by (auto simp: slice_bound_def)

lemma chunk_text_zero_step: "n - overlap = 0 \<Longrightarrow> chunk_text text n overlap = Inl ValueError"
  by (simp add: chunk_text_def py_range_def)

lemma chunk_text_negative_step: "n - overlap < 0 \<Longrightarrow> chunk_text text n overlap = Inr []"
  by (simp add: chunk_text_def py_range_def range_down_from_zero)

text \<open>
  Claim C3, as amended. The chunker validates nothing. When \<open>n - overlap = 0\<close> the call
  \<^verbatim>\<open>range(0, len(text), 0)\<close> raises \<open>ValueError\<close> before any chunk is produced, for every
  text. When \<open>n - overlap < 0\<close> the range is empty and the chunker returns the empty list,
  without any error, for every text. It loops in neither case.
\<close>

theorem chunk_text_invalid_configuration:
  "(n - overlap = 0 \<longrightarrow> chunk_text text n overlap = Inl ValueError) \<and>
   (n - overlap < 0 \<longrightarrow> chunk_text text n overlap = Inr [])"
  by (simp add: chunk_text_zero_step chunk_text_negative_step)

theorem chunk_text_invalid_configuration_witness:
  "(1000::int) - 1000 = 0 \<and> chunk_text ''abc'' 1000 1000 = Inl ValueError \<and>
   (2::int) - 3 < 0 \<and> chunk_text ''abc'' 2 3 = Inr []"
  using chunk_text_invalid_configuration [of 1000 1000 "''abc''"]
    chunk_text_invalid_configuration [of 2 3 "''abc''"]
  by simp

text \<open>
  Claim C3 as stated fails: with an overlap larger than the size the configuration is
  invalid, and the chunker returns an empty chunk list instead of failing.
\<close>

theorem chunk_text_overlap_exceeds_size_counterexample:
  "(2::int) - 3 < 1 \<and> chunk_text ''abc'' 2 3 = Inr []"
  by (simp add: chunk_text_def py_range_def range_down.simps)

text \<open>
  Claim C5. For every text, every size \<open>n > 0\<close> and every overlap with
  \<open>0 \<le> overlap < n\<close>, the chunker returns chunks, and every character index \<open>j\<close> of the
  text appears in one of them: the chunk number \<open>k\<close> starts at offset \<open>k * (n - overlap)\<close>,
  the index \<open>j\<close> lies within it, and the chunk holds the character of the text there.
\<close>

theorem chunk_text_coverage:
  assumes "0 < n" and "0 \<le> overlap" and "overlap < n"
  shows "\<exists>cs. chunk_text text n overlap = Inr cs \<and>
           (\<forall>j < length text. \<exists>k < length cs.
               k * nat (n - overlap) \<le> j \<and>
               j - k * nat (n - overlap) < length (cs ! k) \<and>
               (cs ! k) ! (j - k * nat (n - overlap)) = text ! j)"
proof -
  define step where "step = n - overlap"
  define offs where "offs = range_up 0 (int (length text)) step"
  define cs where "cs = map (\<lambda>i. py_slice text i (i + n)) offs"
  from assms have step: "0 < step" "step \<le> n" by (simp_all add: step_def)
  have res: "chunk_text text n overlap = Inr cs"
    using step by (simp add: chunk_text_def py_range_def cs_def offs_def step_def)
  have "\<exists>k < length cs.
          k * nat step \<le> j \<and> j - k * nat step < length (cs ! k) \<and>
          (cs ! k) ! (j - k * nat step) = text ! j"
    if j: "j < length text" for j
  proof -
    define k where "k = nat (int j div step)"
    have klen: "k < length offs"
      using length_range_up_cover [of step 0 "int j" "int (length text)"] step j
      by (simp add: k_def offs_def)
    have off: "offs ! k = int k * step"
      using nth_range_up [of k 0 "int (length text)" step] klen by (simp add: offs_def)
    have kint: "int k = int j div step"
      using step by (simp add: k_def pos_imp_zdiv_nonneg_iff)
    have dm: "int j = int k * step + int j mod step"
      using kint by (simp add: mult.commute)
    have lo: "int k * step \<le> int j"
      using dm pos_mod_sign [of step "int j"] step by linarith
    have hi: "int j < int k * step + step"
      using dm pos_mod_bound [of step "int j"] step by linarith
    have nn: "0 \<le> int k * step" using step by simp
    have knat: "k * nat step = nat (int k * step)"
      using step by (simp add: nat_mult_distrib)
    have lo': "k * nat step \<le> j" using lo knat by linarith
    have d: "int (j - k * nat step) = int j - int k * step"
      using lo' nn knat by linarith
    have ck: "cs ! k = py_slice text (int k * step) (int k * step + n)"
      using klen off by (simp add: cs_def)
    have sl: "cs ! k = take (min (nat (int k * step + n)) (length text) - k * nat step)
                        (drop (k * nat step) text)"
      using nn step lo' j assms
      by (simp add: ck py_slice_def Let_def slice_bound_nonneg knat min_absorb1)
    have within: "j - k * nat step < min (nat (int k * step + n)) (length text) - k * nat step"
      using hi step lo' j d knat by (simp add: min_def) linarith
    have len: "j - k * nat step < length (cs ! k)"
      using within lo' j by (simp add: sl) linarith
    have val: "(cs ! k) ! (j - k * nat step) = text ! j"
      using within lo' by (simp add: sl)
    from klen lo' len val show ?thesis by (auto simp: cs_def)
  qed
  with res show ?thesis by (auto simp: step_def)
qed

theorem chunk_text_coverage_witness:
  "(0::int) < 3 \<and> (0::int) \<le> 1 \<and> (1::int) < 3 \<and>
   (\<exists>cs. chunk_text ''abcde'' 3 1 = Inr cs \<and>
      (\<forall>j < length ''abcde''. \<exists>k < length cs.
          k * nat (3 - 1) \<le> j \<and>
          j - k * nat (3 - 1) < length (cs ! k) \<and>
          (cs ! k) ! (j - k * nat (3 - 1)) = ''abcde'' ! j))"
  using chunk_text_coverage [of 3 1 "''abcde''"] by simp

section \<open>Properties of the sequencing of calls\<close>

lemma traverse_all_Inr: "(\<And>x. x \<in> set xs \<Longrightarrow> f x = Inr (g x)) \<Longrightarrow> traverse f xs = Inr (map g xs)"
  by (induction xs) simp_all

lemma traverse_first_Inl:
  "(\<And>x. x \<in> set xs \<Longrightarrow> f x = Inr (g x)) \<Longrightarrow> f y = Inl e \<Longrightarrow> traverse f (xs @ y # ys) = Inl e"
  by (induction xs) simp_all

section \<open>Properties of the header-attaching chunker\<close>

lemma traverse_map: "traverse f (map h xs) = traverse (\<lambda>x. f (h x)) xs"
  by (induction xs) (simp_all split: sum.splits)

lemma chunk_text_with_headers_via_chunk_text:
  assumes "chunk_text text n overlap = Inr cs"
  shows "chunk_text_with_headers completion text n overlap =
           traverse (\<lambda>chunk. case generate_chunk_header completion chunk of
                                 Inl e \<Rightarrow> Inl e
                               | Inr h \<Rightarrow> Inr \<lparr>header = h, text' = chunk\<rparr>) cs"
proof (cases "py_range 0 (int (length text)) (n - overlap)")
  case (Inl e)
  with assms show ?thesis by (simp add: chunk_text_def)
next
  case (Inr offsets)
  with assms have "cs = map (\<lambda>i. py_slice text i (i + n)) offsets"
    by (simp add: chunk_text_def)
  with Inr show ?thesis
    by (simp add: chunk_text_with_headers_def traverse_map Let_def)
qed

text \<open>
  Claim C8, as amended. A failure of header generation is not caught. Let \<open>cs\<close> be the
  chunks of the text. If header generation fails for a chunk and succeeded for all chunks
  before it, the exception leaves the function: the ingestion aborts with that exception and
  returns no chunk at all, neither the earlier ones nor the failing one with a sentinel
  header. If header generation succeeds for every chunk, the result has exactly the chunks
  \<open>cs\<close>, in order, each with its stripped generated header.
\<close>

theorem chunk_text_with_headers_failure_aborts:
  assumes "chunk_text text n overlap = Inr cs"
  shows "(\<forall>pre c post e.
            cs = pre @ c # post \<and> (\<forall>x \<in> set pre. completion x = Inr (content x)) \<and>
            completion c = Inl e \<longrightarrow>
            chunk_text_with_headers completion text n overlap = Inl e) \<and>
         ((\<forall>x \<in> set cs. completion x = Inr (content x)) \<longrightarrow>
            chunk_text_with_headers completion text n overlap =
              Inr (map (\<lambda>x. \<lparr>header = py_strip (content x), text' = x\<rparr>) cs))"
proof (intro conjI allI impI)
  fix pre c post e
  assume a: "cs = pre @ c # post \<and> (\<forall>x \<in> set pre. completion x = Inr (content x)) \<and>
            completion c = Inl e"
  let ?F = "\<lambda>chunk. case generate_chunk_header completion chunk of
                                 Inl e \<Rightarrow> Inl e
                               | Inr h \<Rightarrow> Inr \<lparr>header = h, text' = chunk\<rparr>"
  have "traverse ?F (pre @ c # post) = Inl e"
  proof (rule traverse_first_Inl)
    show "?F c = Inl e" using a by (simp add: generate_chunk_header_def)
  next
    fix x assume "x \<in> set pre"
    with a show "?F x = Inr \<lparr>header = py_strip (content x), text' = x\<rparr>"
      by (simp add: generate_chunk_header_def)
  qed
  with a show "chunk_text_with_headers completion text n overlap = Inl e"
    by (simp add: chunk_text_with_headers_via_chunk_text [OF assms])
next
  assume a: "\<forall>x \<in> set cs. completion x = Inr (content x)"
  let ?F = "\<lambda>chunk. case generate_chunk_header completion chunk of
                                 Inl e \<Rightarrow> Inl e
                               | Inr h \<Rightarrow> Inr \<lparr>header = h, text' = chunk\<rparr>"
  have "traverse ?F cs = Inr (map (\<lambda>x. \<lparr>header = py_strip (content x), text' = x\<rparr>) cs)"
    using a by (intro traverse_all_Inr) (simp add: generate_chunk_header_def)
  then show "chunk_text_with_headers completion text n overlap =
              Inr (map (\<lambda>x. \<lparr>header = py_strip (content x), text' = x\<rparr>) cs)"
    by (simp add: chunk_text_with_headers_via_chunk_text [OF assms])
qed

lemma chunk_text_abcdef: "chunk_text ''abcdef'' 2 0 = Inr [''ab'', ''cd'', ''ef'']"
  by (simp add: chunk_text_def py_range_def range_up.simps py_slice_def slice_bound_def)

theorem chunk_text_with_headers_failure_aborts_witness:
  "chunk_text ''abcdef'' 2 0 = Inr [''ab'', ''cd'', ''ef''] \<and>
   chunk_text_with_headers (\<lambda>c. if c = ''cd'' then Inl APIError else Inr ('' Title of '' @ c))
     ''abcdef'' 2 0 = Inl APIError \<and>
   chunk_text_with_headers (\<lambda>c. Inr ('' Title of '' @ c)) ''abcdef'' 2 0 =
     Inr [\<lparr>header = ''Title of ab'', text' = ''ab''\<rparr>,
          \<lparr>header = ''Title of cd'', text' = ''cd''\<rparr>,
          \<lparr>header = ''Title of ef'', text' = ''ef''\<rparr>]"
proof -
  have c: "chunk_text ''abcdef'' 2 0 = Inr [''ab'', ''cd'', ''ef'']"
    by (rule chunk_text_abcdef)
  have "chunk_text_with_headers (\<lambda>c. if c = ''cd'' then Inl APIError else Inr ('' Title of '' @ c))
     ''abcdef'' 2 0 = Inl APIError"
    using chunk_text_with_headers_failure_aborts
      [OF c, of "\<lambda>c. if c = ''cd'' then Inl APIError else Inr ('' Title of '' @ c)"
         "\<lambda>c. '' Title of '' @ c"]
    by (elim conjE allE [of _ "[''ab'']"] allE [of _ "''cd''"] allE [of _ "[''ef'']"] allE [of _ APIError]) simp
  moreover have "chunk_text_with_headers (\<lambda>c. Inr ('' Title of '' @ c)) ''abcdef'' 2 0 =
     Inr [\<lparr>header = ''Title of ab'', text' = ''ab''\<rparr>,
          \<lparr>header = ''Title of cd'', text' = ''cd''\<rparr>,
          \<lparr>header = ''Title of ef'', text' = ''ef''\<rparr>]"
    using chunk_text_with_headers_failure_aborts
      [OF c, of "\<lambda>c. Inr ('' Title of '' @ c)" "\<lambda>c. '' Title of '' @ c"]
    by (simp add: py_strip_def py_isspace_def)
  ultimately show ?thesis using c by simp
qed

lemma chunk_text_ten: "chunk_text ''abcdefghij'' 1 0 =
     Inr [''a'', ''b'', ''c'', ''d'', ''e'', ''f'', ''g'', ''h'', ''i'', ''j'']"
  by (simp add: chunk_text_def py_range_def range_up.simps py_slice_def slice_bound_def)

text \<open>
  Claim C8 as stated fails: with ten chunks and a header generation that fails on one of
  them, the ingestion does not complete with ten chunks, it raises.
\<close>

theorem chunk_text_with_headers_one_failure_counterexample:
  "chunk_text ''abcdefghij'' 1 0 =
     Inr [''a'', ''b'', ''c'', ''d'', ''e'', ''f'', ''g'', ''h'', ''i'', ''j''] \<and>
   chunk_text_with_headers (\<lambda>c. if c = ''e'' then Inl APIError else Inr (''Title of '' @ c))
     ''abcdefghij'' 1 0 = Inl APIError"
  by (simp add: chunk_text_ten chunk_text_with_headers_via_chunk_text [OF chunk_text_ten]
      generate_chunk_header_def)

section \<open>Properties of the rounding to float64\<close>

lemma round64_zero [simp]: "round64 0 = Fin 0"
  by (simp add: round64_def)

lemma round_even_close: "\<bar>y - of_int m\<bar> < 1 / 2 \<Longrightarrow> round_even y = m"
proof -
  assume a: "\<bar>y - of_int m\<bar> < 1 / 2"
  show ?thesis
  proof (cases "of_int m \<le> y")
    case True
    with a have "\<lfloor>y\<rfloor> = m" by (intro floor_unique) linarith+
    with a True show ?thesis by (simp add: round_even_def Let_def) 
  next
    case False
    have "of_int (m - 1) \<le> y" using a by (simp add: abs_if split: if_splits)
    moreover have "y < of_int (m - 1) + 1" using False by simp
    ultimately
    have f: "\<lfloor>y\<rfloor> = m - 1" by (rule floor_unique)
    from a False have "1 / 2 < y - of_int (m - 1)" by (simp add: abs_if split: if_splits)
    with f show ?thesis by (simp add: round_even_def Let_def)
  qed
qed

lemma round_even_of_int [simp]: "round_even (of_int m) = m"
  by (rule round_even_close) simp

lemma round64_at:
  assumes "x \<noteq> 0" and "2 powr of_int k \<le> \<bar>x\<bar>" and "\<bar>x\<bar> < 2 powr of_int (k + 1)"
    and "e = max k (- 1022)"
    and "q = (if 52 \<le> e then 2 ^ nat (e - 52) else inverse (2 ^ nat (52 - e)))"
    and "\<bar>\<bar>x\<bar> / q - of_int m\<bar> < 1 / 2"
    and "of_int m * q < 2 ^ 1024"
  shows "round64 x = Fin (sgn x * (of_int m * q))"
proof -
  have "\<lfloor>log 2 \<bar>x\<bar>\<rfloor> = k"
    using assms(1,2,3) by (subst floor_log_eq_powr_iff) simp_all
  moreover have "2 powr of_int (e - 52) = q"
  proof -
    have P: "(2::real) powr of_int (e - 52) =
        (if 0 \<le> e - 52 then 2 ^ nat (e - 52) else inverse (2 ^ nat (- (e - 52))))"
      by (rule powr_real_of_int) simp
    have Q: "(if 0 \<le> e - 52 then 2 ^ nat (e - 52) else inverse (2 ^ nat (- (e - 52)))) = q"
      unfolding assms(5) by simp
    from P Q show ?thesis by (rule trans)
  qed
  moreover have "round_even (\<bar>x\<bar> / q) = m"
    using assms(6) by (rule round_even_close)
  ultimately show ?thesis
    using assms(1,4,7) by (simp add: round64_def Let_def)
qed

lemma round64_one [simp]: "round64 1 = Fin 1"
  using round64_at [of 1 0 0 "inverse (2 ^ 52)" "2 ^ 52"] by simp

lemma round64_two [simp]: "round64 2 = Fin 2"
  using round64_at [of 2 1 1 "inverse (2 ^ 51)" "2 ^ 52"] by simp

lemma round64_half [simp]: "round64 (1 / 2) = Fin (1 / 2)"
  using round64_at [of "1 / 2" "-1" "-1" "inverse (2 ^ 53)" "2 ^ 52"] by simp

subsection \<open>The computed similarity of a vector to itself, an example\<close>

lemma round64_sqrt_two: "round64 (sqrt 2) = Fin (6369051672525773 / 2 ^ 52)"
proof -
  have lo: "(6369051672525773 - 1 / 2) / 2 ^ 52 < sqrt 2"
    by (rule real_less_rsqrt) (simp add: power2_eq_square)
  have hi: "sqrt 2 < (6369051672525773 + 1 / 2) / 2 ^ 52"
    by (rule real_less_lsqrt) (simp_all add: power2_eq_square)
  have one: "1 \<le> sqrt 2" by simp
  have two: "sqrt 2 < 2" by (rule real_less_lsqrt) simp_all
  have close: "\<bar>\<bar>sqrt 2\<bar> / inverse (2 ^ 52) - of_int 6369051672525773\<bar> < 1 / 2"
    using lo hi by (simp add: abs_if field_simps)
  have "round64 (sqrt 2) = Fin (sgn (sqrt 2) * (of_int 6369051672525773 * inverse (2 ^ 52)))"
    by (rule round64_at [where k = 0 and e = 0]) (use one two close in simp_all)
  then show ?thesis by (simp add: field_simps)
qed

lemma round64_norm_product:
  "round64 (6369051672525773 / 2 ^ 52 * (6369051672525773 / 2 ^ 52)) =
     Fin (4503599627370497 / 2 ^ 51)"
proof -
  have "round64 (6369051672525773 / 2 ^ 52 * (6369051672525773 / 2 ^ 52)) =
      Fin (sgn (6369051672525773 / 2 ^ 52 * (6369051672525773 / 2 ^ 52) :: real) *
           (of_int 4503599627370497 * inverse (2 ^ 51)))"
    by (rule round64_at [where k = 1 and e = 1]) (simp_all add: abs_if)
  then show ?thesis by (simp add: field_simps)
qed

lemma round64_quotient:
  "round64 (2 / (4503599627370497 / 2 ^ 51)) = Fin (4503599627370495 / 2 ^ 52)"
proof -
  have "round64 (2 / (4503599627370497 / 2 ^ 51)) =
      Fin (sgn (2 / (4503599627370497 / 2 ^ 51) :: real) *
           (of_int 9007199254740990 * inverse (2 ^ 53)))"
    by (rule round64_at [where k = "- 1" and e = "- 1"]) (simp_all add: abs_if)
  then show ?thesis by (simp add: field_simps)
qed

lemma cosine_similarity_ones:
  "cosine_similarity [1, 1] [1, 1] = Inr (Fin (4503599627370495 / 2 ^ 52))"
proof -
  have d: "np_dot [Fin 1, Fin 1] [Fin 1, Fin 1] = Fin 2"
    by (simp add: np_dot_def)
  have n: "linalg_norm [Fin 1, Fin 1] = Fin (6369051672525773 / 2 ^ 52)"
    unfolding linalg_norm_def d using round64_sqrt_two by simp
  have p: "np_mul (Fin (6369051672525773 / 2 ^ 52)) (Fin (6369051672525773 / 2 ^ 52)) =
             Fin (4503599627370497 / 2 ^ 51)"
    unfolding np_mul.simps by (rule round64_norm_product)
  have q: "np_div (Fin 2) (Fin (4503599627370497 / 2 ^ 51)) = Fin (4503599627370495 / 2 ^ 52)"
    unfolding np_div.simps using round64_quotient by simp
  have "cosine_similarity [1, 1] [1, 1] =
          Inr (np_div (np_dot [Fin 1, Fin 1] [Fin 1, Fin 1])
                 (np_mul (linalg_norm [Fin 1, Fin 1]) (linalg_norm [Fin 1, Fin 1])))"
    by (simp add: cosine_similarity_def np_array_def)
  then show ?thesis unfolding d n p q .
qed

section \<open>Symmetries of the similarity\<close>


lemma np_neg_neg [simp]: "np_neg (np_neg a) = a"
  by (cases a) simp_all


lemma np_mul_commute: "np_mul a b = np_mul b a"
  by (cases a; cases b) (simp_all add: mult.commute)




lemma np_dot_foldl_commute:
  "foldl (\<lambda>acc (x, y). np_add acc (np_mul x y)) acc (zip a b) =
   foldl (\<lambda>acc (x, y). np_add acc (np_mul x y)) acc (zip b a)"
proof (induction a arbitrary: b acc)
  case Nil
  then show ?case by simp
next
  case (Cons x a)
  then show ?case by (cases b) (simp_all add: np_mul_commute [of x])
qed

lemma np_dot_commute: "np_dot a b = np_dot b a"
  unfolding np_dot_def by (rule np_dot_foldl_commute)








section \<open>Vectors of zero norm\<close>

lemma np_mul_zero_left: "np_mul (Fin 0) y = Fin 0 \<or> np_mul (Fin 0) y = NaN"
  by (cases y) simp_all

lemma np_add_zero_or_nan:
  "a = Fin 0 \<or> a = NaN \<Longrightarrow> b = Fin 0 \<or> b = NaN \<Longrightarrow> np_add a b = Fin 0 \<or> np_add a b = NaN"
  by auto

lemma np_dot_foldl_zero_left:
  assumes "\<forall>x \<in> set a. x = Fin 0" and "acc = Fin 0 \<or> acc = NaN"
  shows "foldl (\<lambda>acc (x, y). np_add acc (np_mul x y)) acc (zip a b) = Fin 0 \<or>
         foldl (\<lambda>acc (x, y). np_add acc (np_mul x y)) acc (zip a b) = NaN"
  using assms
proof (induction a arbitrary: b acc)
  case Nil
  then show ?case by simp
next
  case (Cons x a)
  show ?case
  proof (cases b)
    case Nil
    with Cons.prems show ?thesis by simp
  next
    case (Cons y b')
    have x: "x = Fin 0" using Cons.prems(1) by simp
    have "np_add acc (np_mul x y) = Fin 0 \<or> np_add acc (np_mul x y) = NaN"
      unfolding x using Cons.prems(2) np_mul_zero_left [of y] by (rule np_add_zero_or_nan)
    with Cons.IH [of "np_add acc (np_mul x y)" b'] Cons.prems(1) Cons show ?thesis by simp
  qed
qed

lemma np_dot_zero_left:
  "\<forall>x \<in> set a. x = Fin 0 \<Longrightarrow> np_dot a b = Fin 0 \<or> np_dot a b = NaN"
  unfolding np_dot_def by (rule np_dot_foldl_zero_left) simp_all

lemma np_dot_zero_right:
  "\<forall>x \<in> set b. x = Fin 0 \<Longrightarrow> np_dot a b = Fin 0 \<or> np_dot a b = NaN"
  using np_dot_zero_left [of b a] by (simp add: np_dot_commute [of a b])

lemma np_dot_foldl_zero_self:
  "\<forall>x \<in> set a. x = Fin 0 \<Longrightarrow>
   foldl (\<lambda>acc (x, y). np_add acc (np_mul x y)) (Fin 0) (zip a a) = Fin 0"
  by (induction a) simp_all

lemma linalg_norm_zero: "\<forall>x \<in> set a. x = Fin 0 \<Longrightarrow> linalg_norm a = Fin 0"
  by (simp add: linalg_norm_def np_dot_def np_dot_foldl_zero_self)

lemma np_array_zero: "\<forall>x \<in> set v. x = 0 \<Longrightarrow> \<forall>x \<in> set (np_array v). x = Fin 0"
  by (auto simp: np_array_def)

lemma np_div_zero_or_nan:
  "d = Fin 0 \<or> d = NaN \<Longrightarrow> p = Fin 0 \<or> p = NaN \<Longrightarrow> np_div d p = NaN"
  by auto

text \<open>
  Claim C6, as amended. The similarity function has no policy for degenerate vectors: for
  two vectors of equal length of which one has only zero components (zero norm), it raises
  nothing and returns \<^verbatim>\<open>nan\<close>, the raw result of the division \<open>0 / 0\<close>.
\<close>

theorem cosine_similarity_zero_norm:
  assumes "length a = length b"
    and "(\<forall>x \<in> set a. x = 0) \<or> (\<forall>x \<in> set b. x = 0)"
  shows "cosine_similarity a b = Inr NaN"
proof -
  have d: "np_dot (np_array a) (np_array b) = Fin 0 \<or> np_dot (np_array a) (np_array b) = NaN"
    using assms(2) np_dot_zero_left np_dot_zero_right np_array_zero by blast
  have p: "np_mul (linalg_norm (np_array a)) (linalg_norm (np_array b)) = Fin 0 \<or>
           np_mul (linalg_norm (np_array a)) (linalg_norm (np_array b)) = NaN"
    using assms(2)
  proof
    assume "\<forall>x \<in> set a. x = 0"
    then have "linalg_norm (np_array a) = Fin 0" by (intro linalg_norm_zero np_array_zero)
    then show ?thesis using np_mul_zero_left by simp
  next
    assume "\<forall>x \<in> set b. x = 0"
    then have "linalg_norm (np_array b) = Fin 0" by (intro linalg_norm_zero np_array_zero)
    then show ?thesis
      using np_mul_zero_left [of "linalg_norm (np_array a)"]
      by (simp add: np_mul_commute [of "linalg_norm (np_array a)"])
  qed
  from d p have "np_div (np_dot (np_array a) (np_array b))
      (np_mul (linalg_norm (np_array a)) (linalg_norm (np_array b))) = NaN"
    by (rule np_div_zero_or_nan)
  with assms(1) show ?thesis by (simp add: cosine_similarity_def)
qed

theorem cosine_similarity_zero_norm_witness:
  "length [0, 0 :: real] = length [1, 0 :: real] \<and>
   ((\<forall>x \<in> set [0, 0 :: real]. x = 0) \<or> (\<forall>x \<in> set [1, 0 :: real]. x = 0)) \<and>
   cosine_similarity [0, 0] [1, 0] = Inr NaN"
  using cosine_similarity_zero_norm [of "[0, 0]" "[1, 0]"] by simp

text \<open>
  Claim C6 as stated fails: on a vector of zero norm the result is neither an error nor a
  sentinel such as \<open>0\<close>, it is the \<^verbatim>\<open>nan\<close> of the division by zero.
\<close>

theorem cosine_similarity_zero_vector_counterexample:
  "linalg_norm (np_array [0, 0]) = Fin 0 \<and> cosine_similarity [0, 0] [1, 0] = Inr NaN"
  by (simp add: cosine_similarity_def np_array_def np_dot_def linalg_norm_def)

subsection \<open>Similarities of unit vectors\<close>

lemma cos_unit_same: "cosine_similarity [1, 0] [1, 0] = Inr (Fin 1)"
  by (simp add: cosine_similarity_def np_array_def np_dot_def linalg_norm_def)

lemma cos_unit_orth: "cosine_similarity [1, 0] [0, 1] = Inr (Fin 0)"
  by (simp add: cosine_similarity_def np_array_def np_dot_def linalg_norm_def)



section \<open>Properties of the sorts\<close>

lemma np_lt_rank: "a \<noteq> NaN \<Longrightarrow> b \<noteq> NaN \<Longrightarrow> np_lt a b \<longleftrightarrow> np_rank a < np_rank b"
  by (cases a; cases b) (simp_all add: less_prod_def)

lemma np_rank_eq: "np_rank a = np_rank b \<longleftrightarrow> a = b"
  by (cases a; cases b) simp_all

subsection \<open>Insertion into a sorted list\<close>

lemma mset_insort_by: "mset (insort_by behind x ys) = add_mset x (mset ys)"
  by (induction ys) simp_all

lemma mset_foldr_insort_by: "mset (foldr (insort_by behind) xs []) = mset xs"
  by (induction xs) (simp_all add: mset_insort_by)

lemma set_insort_by: "set (insort_by behind x ys) = insert x (set ys)"
  using mset_insort_by [of behind x ys] by (metis set_mset_add_mset_insert set_mset_mset)

lemma set_foldr_insort_by: "set (foldr (insort_by behind) xs []) = set xs"
  using mset_foldr_insort_by [of behind xs] by (metis set_mset_mset)

lemma insort_by_map:
  "insort_by behind (g x) (map g ys) = map g (insort_by (\<lambda>a b. behind (g a) (g b)) x ys)"
  by (induction ys) simp_all

lemma foldr_insort_by_map:
  "foldr (insort_by behind) (map g xs) [] = map g (foldr (insort_by (\<lambda>a b. behind (g a) (g b))) xs [])"
  by (induction xs) (simp_all add: insort_by_map)

text \<open>Descending in \<open>f\<close>, and among equal \<open>f\<close> ascending in the position \<open>p\<close>.\<close>

lemma sorted_insort_by:
  fixes f :: "'a \<Rightarrow> 'b :: linorder"
  assumes "sorted_wrt (\<lambda>a b. f b < f a \<or> (f b = f a \<and> p a < p b)) ys"
    and "\<And>y. y \<in> set ys \<Longrightarrow> (behind x y \<longleftrightarrow> f x < f y)"
    and "\<And>y. y \<in> set ys \<Longrightarrow> p x < p y"
  shows "sorted_wrt (\<lambda>a b. f b < f a \<or> (f b = f a \<and> p a < p b)) (insort_by behind x ys)"
  using assms
proof (induction ys)
  case Nil
  then show ?case by simp
next
  case (Cons y ys)
  show ?case
  proof (cases "behind x y")
    case True
    with Cons.prems(2) have "f x < f y" by simp
    moreover have "sorted_wrt (\<lambda>a b. f b < f a \<or> (f b = f a \<and> p a < p b)) (insort_by behind x ys)"
      using Cons by simp
    ultimately show ?thesis using True Cons.prems(1) by (auto simp: set_insort_by)
  next
    case False
    with Cons.prems(2) have "f y \<le> f x" by (simp add: not_less)
    moreover have "\<forall>z \<in> set ys. f z \<le> f y" using Cons.prems(1) by auto
    ultimately have "\<forall>z \<in> set (y # ys). f z \<le> f x" by auto
    with Cons.prems(3) have "\<forall>z \<in> set (y # ys). f z < f x \<or> (f z = f x \<and> p x < p z)"
      by (metis le_less)
    with False Cons.prems(1) show ?thesis by simp
  qed
qed

lemma sorted_foldr_insort_by:
  fixes f :: "'a \<Rightarrow> 'b :: linorder"
  assumes "sorted_wrt (\<lambda>a b. p a < p b) xs"
    and "\<And>x y. x \<in> set xs \<Longrightarrow> y \<in> set xs \<Longrightarrow> (behind x y \<longleftrightarrow> f x < f y)"
  shows "sorted_wrt (\<lambda>a b. f b < f a \<or> (f b = f a \<and> p a < p b)) (foldr (insort_by behind) xs [])"
  using assms
proof (induction xs)
  case Nil
  then show ?case by simp
next
  case (Cons x xs)
  have "sorted_wrt (\<lambda>a b. f b < f a \<or> (f b = f a \<and> p a < p b)) (foldr (insort_by behind) xs [])"
    using Cons by simp
  then have "sorted_wrt (\<lambda>a b. f b < f a \<or> (f b = f a \<and> p a < p b))
               (insort_by behind x (foldr (insort_by behind) xs []))"
    using Cons.prems by (intro sorted_insort_by) (auto simp: set_foldr_insort_by)
  then show ?case by simp
qed

subsection \<open>The sort of CPython\<close>

lemma mset_binarysort: "mset (binarysort lt run rest) = mset run + mset rest"
proof -
  have "mset (foldl (\<lambda>sorted pivot.
              let l = bisect lt pivot sorted 0 (length sorted)
              in take l sorted @ pivot # drop l sorted) run rest) = mset run + mset rest"
  proof (induction rest arbitrary: run)
    case Nil
    then show ?case by simp
  next
    case (Cons pivot rest)
    have "mset (take l run @ pivot # drop l run) = add_mset pivot (mset run)" for l
      by (metis append_take_drop_id mset.simps(2) mset_append union_mset_add_mset_right)
    with Cons [of "take (bisect lt pivot run 0 (length run)) run @ pivot #
                   drop (bisect lt pivot run 0 (length run)) run"]
    show ?case by (simp add: Let_def)
  qed
  then show ?thesis by (simp add: binarysort_def)
qed

lemma mset_run_sort: "mset (run_sort lt xs) = mset xs"
proof -
  obtain n d where c: "count_run lt xs = (n, d)" by (cases "count_run lt xs")
  have "mset (take n xs) + mset (drop n xs) = mset xs"
    by (metis append_take_drop_id mset_append)
  then show ?thesis by (simp add: run_sort_def c mset_binarysort)
qed

lemma mset_merged_sort: "mset (merged_sort key xs) = mset xs"
proof -
  have "\<exists>sort :: ('a \<Rightarrow> npfloat) \<Rightarrow> 'a list \<Rightarrow> 'a list. \<forall>key xs. mset (sort key xs) = mset xs"
    by (rule exI [of _ "\<lambda>key xs. xs"]) simp
  then have "\<forall>key xs. mset (merged_sort key xs) = mset (xs :: 'a list)"
    unfolding merged_sort_def by (rule someI_ex)
  then show ?thesis by blast
qed

lemma mset_sort_reverse: "mset (sort_reverse key xs) = mset xs"
  by (simp add: sort_reverse_def mset_foldr_insort_by mset_run_sort mset_merged_sort)

lemma ranked_indices:
  assumes "\<forall>i < n. v i \<noteq> NaN"
  shows "\<exists>idx. sort_reverse snd (map (\<lambda>i. (g i, v i)) [0..<n]) = map (\<lambda>i. (g i, v i)) idx \<and>
           mset idx = mset [0..<n] \<and>
           sorted_wrt (\<lambda>a b. np_lt (v b) (v a) \<or> (v b = v a \<and> a < b)) idx"
proof -
  define idx where "idx = foldr (insort_by (\<lambda>a b. np_lt (v a) (v b))) [0..<n] []"
  have free: "\<forall>x \<in> set (map (\<lambda>i. (g i, v i)) [0..<n]). snd x \<noteq> NaN"
    using assms by auto
  have "sort_reverse snd (map (\<lambda>i. (g i, v i)) [0..<n]) =
          foldr (insort_by (\<lambda>x y. np_lt (snd x) (snd y))) (map (\<lambda>i. (g i, v i)) [0..<n]) []"
    unfolding sort_reverse_def using free by (rule if_P)
  also have "\<dots> = map (\<lambda>i. (g i, v i)) idx"
    unfolding idx_def by (subst foldr_insort_by_map) simp
  finally have r: "sort_reverse snd (map (\<lambda>i. (g i, v i)) [0..<n]) = map (\<lambda>i. (g i, v i)) idx" .
  have m: "mset idx = mset [0..<n]"
    unfolding idx_def by (rule mset_foldr_insort_by)
  have s0: "sorted_wrt (\<lambda>a b. np_rank (v b) < np_rank (v a) \<or> (np_rank (v b) = np_rank (v a) \<and> a < b)) idx"
    unfolding idx_def
  proof (rule sorted_foldr_insort_by [where p = "\<lambda>i. i"])
    show "sorted_wrt (\<lambda>a b. a < b) [0..<n]" by (simp add: sorted_wrt_iff_nth_less)
  next
    fix x y assume "x \<in> set [0..<n]" "y \<in> set [0..<n]"
    then have "v x \<noteq> NaN" "v y \<noteq> NaN" using assms by simp_all
    then show "np_lt (v x) (v y) \<longleftrightarrow> np_rank (v x) < np_rank (v y)" by (rule np_lt_rank)
  qed
  have si: "set idx = {0..<n}" using m by (metis set_mset_mset set_upt)
  have "sorted_wrt (\<lambda>a b. np_lt (v b) (v a) \<or> (v b = v a \<and> a < b)) idx"
  proof (rule sorted_wrt_mono_rel [OF _ s0])
    fix a b assume "a \<in> set idx" "b \<in> set idx"
      and h: "np_rank (v b) < np_rank (v a) \<or> (np_rank (v b) = np_rank (v a) \<and> a < b)"
    then have "v a \<noteq> NaN" "v b \<noteq> NaN" using assms si by simp_all
    then have "np_lt (v b) (v a) \<longleftrightarrow> np_rank (v b) < np_rank (v a)" by (intro np_lt_rank)
    with h show "np_lt (v b) (v a) \<or> (v b = v a \<and> a < b)"
      using np_rank_eq [of "v b" "v a"] by blast
  qed
  with r m show ?thesis by blast
qed

section \<open>Properties of the neighbour-window retriever\<close>

lemma enumerate_as_map: "enumerate 0 xs = map (\<lambda>i. (i, xs ! i)) [0..<length xs]"
  by (rule nth_equalityI) (simp_all add: nth_enumerate_eq)

lemma range_up_unit: "0 \<le> a \<Longrightarrow> range_up a b 1 = map int [nat a..<nat b]"
proof (induction a b "1::int" rule: range_up.induct)
  case (1 i stop)
  show ?case
  proof (cases "i < stop")
    case True
    with 1 have "range_up (i + 1) stop 1 = map int [nat (i + 1)..<nat stop]" by simp
    moreover have "range_up i stop 1 = i # range_up (i + 1) stop 1"
      using True by (subst range_up.simps) simp
    moreover have "[nat i..<nat stop] = nat i # [nat (i + 1)..<nat stop]"
      using True 1(2) by (simp add: upt_conv_Cons nat_add_distrib)
    ultimately show ?thesis using 1(2) by simp
  next
    case False
    then have "range_up i stop 1 = []" by (subst range_up.simps) simp
    with False show ?thesis by simp
  qed
qed

lemma traverse_py_index_upt:
  "b \<le> length xs \<Longrightarrow> traverse (py_index xs) (map int [a..<b]) = Inr (map (\<lambda>i. xs ! i) [a..<b])"
proof -
  assume "b \<le> length xs"
  then have "traverse (py_index xs) (map int [a..<b]) = Inr (map (\<lambda>j. xs ! nat j) (map int [a..<b]))"
    by (intro traverse_all_Inr) (auto simp: py_index_def)
  then show ?thesis by (simp add: comp_def)
qed





lemma cosine_similarity_total:
  "length e = length q \<Longrightarrow> \<exists>s. cosine_similarity q e = Inr s"
  by (simp add: cosine_similarity_def)

lemma similarity_scores_same_length:
  assumes "\<forall>e \<in> set embeddings. length e = length q"
  shows "\<exists>ss. length ss = length embeddings \<and>
           map (cosine_similarity q) embeddings = map Inr ss \<and>
           similarity_scores q embeddings = Inr (map (\<lambda>i. (i, ss ! i)) [0..<length embeddings])"
proof -
  define ss where "ss = map (\<lambda>e. projr (cosine_similarity q e)) embeddings"
  have m: "map (cosine_similarity q) embeddings = map Inr ss"
  proof -
    have "cosine_similarity q e = Inr (projr (cosine_similarity q e))" if "e \<in> set embeddings" for e
    proof -
      from that assms have "length e = length q" by blast
      from cosine_similarity_total [OF this] obtain s0 where "cosine_similarity q e = Inr s0" by blast
      then show ?thesis by simp
    qed
    then show ?thesis by (simp add: ss_def)
  qed
  have "traverse (\<lambda>(i, chunk_embedding).
                 case cosine_similarity q chunk_embedding of
                   Inl e \<Rightarrow> Inl e
                 | Inr similarity_score \<Rightarrow> Inr (i, similarity_score))
          (map (\<lambda>i. (i, embeddings ! i)) [0..<length embeddings])
      = Inr (map (\<lambda>(i, e). (i, projr (cosine_similarity q e)))
          (map (\<lambda>i. (i, embeddings ! i)) [0..<length embeddings]))"
  proof (rule traverse_all_Inr)
    fix x assume "x \<in> set (map (\<lambda>i. (i, embeddings ! i)) [0..<length embeddings])"
    then obtain i where i: "i < length embeddings" "x = (i, embeddings ! i)" by auto
    then have "embeddings ! i \<in> set embeddings" by simp
    with assms have "length (embeddings ! i) = length q" by blast
    from cosine_similarity_total [OF this] obtain s0 where
      "cosine_similarity q (embeddings ! i) = Inr s0" by blast
    with i show
      "(case x of (i, chunk_embedding) \<Rightarrow>
                 case cosine_similarity q chunk_embedding of
                   Inl e \<Rightarrow> Inl e
                 | Inr similarity_score \<Rightarrow> Inr (i, similarity_score))
       = Inr (case x of (i, e) \<Rightarrow> (i, projr (cosine_similarity q e)))"
      by simp
  qed
  then have "similarity_scores q embeddings = Inr (map (\<lambda>i. (i, ss ! i)) [0..<length embeddings])"
    by (simp add: similarity_scores_def enumerate_as_map comp_def ss_def)
  moreover have "length ss = length embeddings" by (simp add: ss_def)
  ultimately show ?thesis using m by blast
qed

text \<open>
  Claim C1. For a non-empty corpus with one embedding per chunk, every embedding of the
  dimension of the query, and a radius \<open>context_size \<ge> 0\<close>: the ranking has a top entry
  with index \<open>t\<close>, and the function returns exactly the chunks at the indices from
  \<open>max(0, t - context_size)\<close> to \<open>min(len - 1, t + context_size)\<close> inclusive, in
  document order; both ends are indices of the corpus. Where no similarity is \<^verbatim>\<open>nan\<close>,
  the top index is the one the descending stable sort puts first: its similarity \<open>ss ! t\<close>
  is maximal, and it is the first index with that similarity.
\<close>

theorem context_enriched_search_window:
  assumes "text_chunks \<noteq> []"
    and "length embeddings = length text_chunks"
    and "0 \<le> context_size"
    and "\<forall>e \<in> set embeddings. length e = length q"
  shows "\<exists>t s rest.
           context_enriched_ranking q embeddings = Inr ((t, s) # rest) \<and>
           t < length text_chunks \<and>
           nat (min (int (length text_chunks) - 1) (int t + context_size)) < length text_chunks \<and>
           context_enriched_search q text_chunks embeddings k context_size =
             Inr (map (\<lambda>i. text_chunks ! i)
                    [nat (max 0 (int t - context_size)) ..<
                     Suc (nat (min (int (length text_chunks) - 1) (int t + context_size)))]) \<and>
           (\<forall>ss. map (cosine_similarity q) embeddings = map Inr ss \<and> NaN \<notin> set ss \<longrightarrow>
                 (\<forall>j < length ss. \<not> np_lt (ss ! t) (ss ! j)) \<and> (\<forall>j < t. np_lt (ss ! j) (ss ! t)))"
proof -
  define n where "n = length text_chunks"
  have n: "0 < n" "length embeddings = n" using assms(1,2) by (simp_all add: n_def)
  from similarity_scores_same_length [OF assms(4)] obtain v where
    v: "length v = n" "map (cosine_similarity q) embeddings = map Inr v"
       "similarity_scores q embeddings = Inr (map (\<lambda>i. (i, v ! i)) [0..<n])"
    unfolding n(2) by blast
  define ranked where "ranked = sort_reverse snd (map (\<lambda>i. (i, v ! i)) [0..<n])"
  have rk: "context_enriched_ranking q embeddings = Inr ranked"
    by (simp add: context_enriched_ranking_def v(3) ranked_def)
  have ms: "mset ranked = mset (map (\<lambda>i. (i, v ! i)) [0..<n])"
    unfolding ranked_def by (rule mset_sort_reverse)
  have "length ranked = n" using mset_eq_length [OF ms] by simp
  with n(1) obtain t s rest where tr: "ranked = (t, s) # rest"
    by (cases ranked) auto
  have "(t, s) \<in> set ranked" by (simp add: tr)
  then have "(t, s) \<in> set (map (\<lambda>i. (i, v ! i)) [0..<n])"
    using mset_eq_setD [OF ms] by simp
  then have t: "t < n" by auto
  define start where "start = max 0 (int t - context_size)"
  define stop where "stop = min (int n) (int t + context_size + 1)"
  have stop_eq: "nat stop = Suc (nat (min (int n - 1) (int t + context_size)))"
    using assms(3) n(1) unfolding stop_def min_def by (auto simp: nat_add_distrib)
  have stop_le: "nat stop \<le> n" by (simp add: stop_def)
  have hi: "nat (min (int n - 1) (int t + context_size)) < n"
    using stop_eq stop_le by simp
  have "context_enriched_search q text_chunks embeddings k context_size =
          traverse (py_index text_chunks) (range_up start stop 1)"
    by (simp add: context_enriched_search_def rk tr Let_def start_def stop_def n_def)
  also have "\<dots> = traverse (py_index text_chunks) (map int [nat start..<nat stop])"
    by (simp add: range_up_unit start_def)
  also have "\<dots> = Inr (map (\<lambda>i. text_chunks ! i) [nat start..<nat stop])"
    using stop_le by (intro traverse_py_index_upt) (simp add: n_def)
  finally have res: "context_enriched_search q text_chunks embeddings k context_size =
      Inr (map (\<lambda>i. text_chunks ! i)
             [nat (max 0 (int t - context_size)) ..< Suc (nat (min (int n - 1) (int t + context_size)))])"
    by (simp add: start_def stop_eq)
  have best: "(\<forall>j < length ss. \<not> np_lt (ss ! t) (ss ! j)) \<and> (\<forall>j < t. np_lt (ss ! j) (ss ! t))"
    if ss: "map (cosine_similarity q) embeddings = map Inr ss \<and> NaN \<notin> set ss" for ss
  proof -
    from ss v(2) have "map Inr ss = (map Inr v :: (py_error + npfloat) list)" by simp
    then have sv: "ss = v" by (simp add: inj_map_eq_map)
    have len: "length ss = n" using sv v(1) by simp
    have free: "\<forall>i < n. ss ! i \<noteq> NaN" using ss len by (metis nth_mem)
    from ranked_indices [OF free, of "\<lambda>i. i"] obtain idx where
      idx: "ranked = map (\<lambda>i. (i, ss ! i)) idx"
        "mset idx = mset [0..<n]"
        "sorted_wrt (\<lambda>a b. np_lt (ss ! b) (ss ! a) \<or> (ss ! b = ss ! a \<and> a < b)) idx"
      unfolding ranked_def sv by blast
    from idx(1) tr obtain others where io: "idx = t # others" by (cases idx) auto
    have "set idx = {0..<n}" using idx(2) by (metis set_mset_mset set_upt)
    then have mem: "insert t (set others) = {0..<n}" by (simp add: io)
    have after: "\<And>j. j \<in> set others \<Longrightarrow> np_lt (ss ! j) (ss ! t) \<or> (ss ! j = ss ! t \<and> t < j)"
      using idx(3) unfolding io by simp
    have split: "j = t \<or> j \<in> set others" if "j < n" for j
    proof -
      from that have "j \<in> insert t (set others)" unfolding mem by simp
      then show ?thesis by simp
    qed
    have irrefl: "\<not> np_lt a a" for a by (cases a) simp_all
    have asym: "np_lt a b \<Longrightarrow> \<not> np_lt b a" for a b by (cases a; cases b) simp_all
    have "\<not> np_lt (ss ! t) (ss ! j)" if "j < length ss" for j
    proof -
      from that have j: "j < n" by (simp add: len)
      from split [OF j] show ?thesis
      proof
        assume "j = t" then show ?thesis by (simp add: irrefl)
      next
        assume "j \<in> set others"
        from after [OF this] show ?thesis by (auto simp: irrefl dest: asym)
      qed
    qed
    moreover have "np_lt (ss ! j) (ss ! t)" if "j < t" for j
    proof -
      from that t have j: "j < n" by simp
      from split [OF j] that have "j \<in> set others" by simp
      from after [OF this] that show ?thesis by auto
    qed
    ultimately show ?thesis by blast
  qed
  from rk tr t hi res best show ?thesis unfolding n_def by blast
qed

theorem context_enriched_search_window_witness:
  "context_enriched_search [1, 0] [''c0'', ''c1'', ''c2'', ''c3'', ''c4'']
     [[0, 1], [0, 1], [0, 1], [1, 0], [0, 1]] 1 1 = Inr [''c2'', ''c3'', ''c4'']"
proof -
  let ?cs = "[''c0'', ''c1'', ''c2'', ''c3'', ''c4'']"
  let ?es = "[[0, 1], [0, 1], [0, 1], [1, 0], [0, 1 :: real]]"
  let ?ss = "[Fin 0, Fin 0, Fin 0, Fin 1, Fin 0]"
  have cos: "map (cosine_similarity [1, 0]) ?es = map Inr ?ss"
    by (simp add: cos_unit_same cos_unit_orth)
  from context_enriched_search_window [of ?cs ?es 1 "[1, 0]" 1]
  obtain t where t: "t < length ?cs"
    and res: "context_enriched_search [1, 0] ?cs ?es 1 1 =
             Inr (map (\<lambda>i. ?cs ! i)
                    [nat (max 0 (int t - 1)) ..< Suc (nat (min (int (length ?cs) - 1) (int t + 1)))])"
    and best: "\<forall>ss. map (cosine_similarity [1, 0]) ?es = map Inr ss \<and> NaN \<notin> set ss \<longrightarrow>
                 (\<forall>j < length ss. \<not> np_lt (ss ! t) (ss ! j)) \<and> (\<forall>j < t. np_lt (ss ! j) (ss ! t))"
    by auto
  from best cos have "\<forall>j < length ?ss. \<not> np_lt (?ss ! t) (?ss ! j)"
    by (metis (no_types, lifting) list.set_intros(1) list.set_intros(2) npfloat.distinct(5) set_ConsD empty_iff empty_set)
  from this [rule_format, of 3] have "\<not> np_lt (?ss ! t) (Fin 1)" by simp
  with t have "t = 3" by (auto simp: less_Suc_eq)
  with res show ?thesis by (simp add: upt_rec)
qed

text \<open>
  Claim C7. On an empty corpus (no embeddings) the function fails, for every query, every
  \<open>k\<close> and every radius: \<^verbatim>\<open>similarity_scores[0]\<close> raises \<open>IndexError\<close>.
\<close>

theorem context_enriched_search_empty_corpus:
  "context_enriched_search q text_chunks [] k context_size = Inl IndexError"
  by (simp add: context_enriched_search_def context_enriched_ranking_def similarity_scores_def
      sort_reverse_def)

text \<open>
  Claim C10. The parameter \<open>k\<close> has no effect: two calls that differ only in \<open>k\<close> return
  the same result.
\<close>

theorem context_enriched_search_ignores_k:
  "context_enriched_search q text_chunks embeddings k context_size =
   context_enriched_search q text_chunks embeddings k' context_size"
  by (simp add: context_enriched_search_def)

section \<open>Properties of the header-weighted retriever\<close>










section \<open>Properties of the rankings\<close>










text \<open>
  With a \<^verbatim>\<open>nan\<close> among four scores, \<^verbatim>\<open>[0.0, nan, 0.0, 1.0]\<close>, the descending sort of
  CPython 3.11 returns the entries in the order \<open>1, 3, 0, 2\<close>.
\<close>

lemma ranking_nan_four:
  "sort_reverse snd [(0 :: nat, Fin 0), (1, NaN), (2, Fin 0), (3, Fin 1)] =
     [(1, NaN), (3, Fin 1), (0, Fin 0), (2, Fin 0)]"
  by (simp add: sort_reverse_def run_sort_def binarysort_def bisect.simps)

section \<open>A ranking decided by rounding\<close>

lemma round64_three [simp]: "round64 3 = Fin 3"
  using round64_at [of 3 1 1 "inverse (2 ^ 51)" "3 * 2 ^ 51"] by simp

lemma round64_six [simp]: "round64 6 = Fin 6"
  using round64_at [of 6 2 2 "inverse (2 ^ 50)" "6 * 2 ^ 50"] by simp

lemma round64_nine [simp]: "round64 9 = Fin 9"
  using round64_at [of 9 3 3 "inverse (2 ^ 49)" "9 * 2 ^ 49"] by simp

lemma round64_eighteen [simp]: "round64 18 = Fin 18"
  using round64_at [of 18 4 4 "inverse (2 ^ 48)" "18 * 2 ^ 48"] by simp

lemma round64_sqrt_eighteen: "round64 (sqrt 18) = Fin (4776788754394329 / 2 ^ 50)"
proof -
  have lo: "(4776788754394329 - 1 / 2) / 2 ^ 50 < sqrt 18"
    by (rule real_less_rsqrt) (simp add: power2_eq_square)
  have hi: "sqrt 18 < (4776788754394329 + 1 / 2) / 2 ^ 50"
    by (rule real_less_lsqrt) (simp_all add: power2_eq_square)
  have four: "4 \<le> sqrt 18" by (rule real_le_rsqrt) simp
  have eight: "sqrt 18 < 8" by (rule real_less_lsqrt) simp_all
  have close: "\<bar>\<bar>sqrt 18\<bar> / inverse (2 ^ 50) - of_int 4776788754394329\<bar> < 1 / 2"
    using lo hi by (simp add: abs_if field_simps)
  have "round64 (sqrt 18) = Fin (sgn (sqrt 18) * (of_int 4776788754394329 * inverse (2 ^ 50)))"
    by (rule round64_at [where k = 2 and e = 2]) (use four eight close in simp_all)
  then show ?thesis by (simp add: field_simps)
qed

lemma round64_norm_product_three:
  "round64 (6369051672525773 / 2 ^ 52 * (4776788754394329 / 2 ^ 50)) = Fin 6"
proof -
  have "round64 (6369051672525773 / 2 ^ 52 * (4776788754394329 / 2 ^ 50)) =
      Fin (sgn (6369051672525773 / 2 ^ 52 * (4776788754394329 / 2 ^ 50) :: real) *
           (of_int 6755399441055744 * inverse (2 ^ 50)))"
    by (rule round64_at [where k = 2 and e = 2]) (simp_all add: abs_if)
  then show ?thesis by (simp add: field_simps)
qed

lemma cosine_similarity_ones_threes: "cosine_similarity [1, 1] [3, 3] = Inr (Fin 1)"
proof -
  have d: "np_dot [Fin 1, Fin 1] [Fin 3, Fin 3] = Fin 6"
    by (simp add: np_dot_def)
  have d1: "np_dot [Fin 1, Fin 1] [Fin 1, Fin 1] = Fin 2"
    by (simp add: np_dot_def)
  have d3: "np_dot [Fin 3, Fin 3] [Fin 3, Fin 3] = Fin 18"
    by (simp add: np_dot_def)
  have n1: "linalg_norm [Fin 1, Fin 1] = Fin (6369051672525773 / 2 ^ 52)"
    unfolding linalg_norm_def d1 using round64_sqrt_two by simp
  have n3: "linalg_norm [Fin 3, Fin 3] = Fin (4776788754394329 / 2 ^ 50)"
    unfolding linalg_norm_def d3 using round64_sqrt_eighteen by simp
  have p: "np_mul (Fin (6369051672525773 / 2 ^ 52)) (Fin (4776788754394329 / 2 ^ 50)) = Fin 6"
    unfolding np_mul.simps by (rule round64_norm_product_three)
  have q: "np_div (Fin 6) (Fin 6) = Fin 1"
    by simp
  have "cosine_similarity [1, 1] [3, 3] =
          Inr (np_div (np_dot [Fin 1, Fin 1] [Fin 3, Fin 3])
                 (np_mul (linalg_norm [Fin 1, Fin 1]) (linalg_norm [Fin 3, Fin 3])))"
    by (simp add: cosine_similarity_def np_array_def)
  then show ?thesis unfolding d n1 n3 p q .
qed

text \<open>
  The ranking is decided by the computed scores: \<open>[1, 1]\<close> has the direction of \<open>[1, 1]\<close>
  and of \<open>[3, 3]\<close>, but its computed similarity to the first is \<open>1 - 2\<^sup>-\<^sup>5\<^sup>2\<close> and to the
  second \<open>1\<close>, so the second chunk is the top one.
\<close>

lemma context_enriched_search_rounding:
  "context_enriched_search [1, 1] [''c0'', ''c1''] [[1, 1], [3, 3]] k 0 = Inr [''c1'']"
proof -
  have lt: "np_lt (Fin (4503599627370495 / 2 ^ 52)) (Fin 1)" by simp
  have r: "context_enriched_ranking [1, 1] [[1, 1], [3, 3]] =
             Inr [(1, Fin 1), (0, Fin (4503599627370495 / 2 ^ 52))]"
    using lt by (simp add: context_enriched_ranking_def similarity_scores_def enumerate_eq_zip
        upt_rec cosine_similarity_ones cosine_similarity_ones_threes sort_reverse_def)
  show ?thesis
    by (simp add: context_enriched_search_def r py_index_def py_range_def range_up.simps)
qed

section \<open>The similarity of a vector to itself\<close>

subsection \<open>The relative error of a rounding\<close>









subsection \<open>Three roundings in a row\<close>















subsection \<open>The identities\<close>








end
